theory Spec2Isabelle
  imports Main "HOL-Library.Word" "HOL-Library.Signed_Division"
begin

unbundle bit_operations_syntax

section \<open>Data model\<close>

text \<open>
  Go's \<open>byte\<close> is an unsigned 8-bit integer and \<open>uint64\<close> an unsigned 64-bit integer;
  a Go \<open>string\<close> and a \<open>[]byte\<close> are both sequences of bytes. A \<open>*big.Int\<close> that is
  never negative is a natural number. A run-time panic (an index out of range) and the two
  errors of \<open>DecodeToUint64\<close> are values of the type \<open>error\<close>.
\<close>

type_synonym byte = "8 word"
type_synonym uint64 = "64 word"

datatype error =
    IndexOutOfRange
  | InvalidCharacter byte "byte list"
  | Overflow "byte list"

text \<open>
  \<open>type Encoding struct { alphabet [62]byte; decodeMap [256]byte; alphabetIdx0 byte }\<close>.
  The two arrays are lists; every read goes through \<open>idx\<close>, which checks the bounds as the
  Go run time does.
\<close>

record Encoding =
  alphabet :: "byte list"
  decodeMap :: "byte list"
  alphabetIdx0 :: byte

definition idx :: "'a list \<Rightarrow> int \<Rightarrow> error + 'a" where
  "idx xs i = (if 0 \<le> i \<and> i < int (length xs) then Inr (xs ! nat i) else Inl IndexOutOfRange)"

text \<open>Go's builtin \<open>copy(dst, src)\<close>: the first \<open>min (len dst) (len src)\<close> elements are overwritten.\<close>

definition copy :: "'a list \<Rightarrow> 'a list \<Rightarrow> 'a list" where
  "copy dst src = take (length dst) src @ drop (length src) dst"

definition radix :: uint64 where
  "radix = 62"

section \<open>Construction of the table: \<open>New\<close>\<close>

text \<open>
  \<open>for i := range enc.decodeMap { enc.decodeMap[i] = 255 }\<close> and
  \<open>for i, b := range enc.alphabet { enc.decodeMap[b] = byte(i) }\<close> are folds over the
  indices. \<open>alphabet[0]\<close> panics on an empty slice.
\<close>

definition New :: "byte list \<Rightarrow> error + Encoding" where
  "New a =
    (let alph = copy (replicate 62 0) a;
         dm0 = foldl (\<lambda>dm i. dm[i := 255]) (replicate 256 0) [0..<256];
         dm = foldl (\<lambda>dm (i, b). dm[unat b := of_nat i]) dm0 (enumerate 0 alph)
     in case idx a 0 of
          Inl err \<Rightarrow> Inl err
        | Inr a0 \<Rightarrow> Inr \<lparr>alphabet = alph, decodeMap = dm, alphabetIdx0 = a0\<rparr>)"

definition stdAlphabet :: "byte list" where
  "stdAlphabet = map of_char ''0123456789abcdefghijklmnopqrstuvwxyzABCDEFGHIJKLMNOPQRSTUVWXYZ''"

definition StdEncoding :: Encoding where
  "StdEncoding = projr (New stdAlphabet)"

section \<open>Big integers\<close>

text \<open>
  \<open>big.Int.SetBytes\<close> reads a big-endian unsigned integer; \<open>big.Int.Bytes\<close> writes the
  minimal big-endian form (no leading zero byte; the empty slice for 0);
  \<open>big.Int.Int64\<close> takes the low 64 bits as a two's complement value.
\<close>

definition SetBytes :: "byte list \<Rightarrow> nat" where
  "SetBytes b = foldl (\<lambda>x c. x * 256 + unat c) 0 b"

fun Bytes :: "nat \<Rightarrow> byte list" where
  "Bytes x = (if x = 0 then [] else Bytes (x div 256) @ [of_nat (x mod 256)])"

declare Bytes.simps [simp del]

definition Int64 :: "nat \<Rightarrow> int" where
  "Int64 x = sint (word_of_nat x :: 64 word)"

definition bigRadix10 :: nat where
  "bigRadix10 = 62 * 62 * 62 * 62 * 62 * 62 * 62 * 62 * 62 * 62"

definition bigRadix :: "nat list" where
  "bigRadix =
    [0,
     62,
     62 * 62,
     62 * 62 * 62,
     62 * 62 * 62 * 62,
     62 * 62 * 62 * 62 * 62,
     62 * 62 * 62 * 62 * 62 * 62,
     62 * 62 * 62 * 62 * 62 * 62 * 62,
     62 * 62 * 62 * 62 * 62 * 62 * 62 * 62,
     62 * 62 * 62 * 62 * 62 * 62 * 62 * 62 * 62,
     bigRadix10]"

section \<open>\<open>EncodeToString\<close>\<close>

text \<open>
  \<open>m\<close> is an \<open>int64\<close>: \<open>%\<close> and \<open>/\<close> truncate towards zero (\<open>smod\<close>, \<open>sdiv\<close>), and
  \<open>e.alphabet[m%62]\<close> panics when the index is negative. The first loop is
  \<open>for m > 0 { ... }\<close>, the second \<open>for i := 0; i < 10; i++ { ... }\<close>.
\<close>

function emitMin :: "Encoding \<Rightarrow> int \<Rightarrow> byte list \<Rightarrow> error + byte list" where
  "emitMin e m answer =
    (if m > 0 then
       (case idx (alphabet e) (m smod 62) of
          Inl err \<Rightarrow> Inl err
        | Inr c \<Rightarrow> emitMin e (m sdiv 62) (answer @ [c]))
     else Inr answer)"
  by pat_completeness auto
termination
  by (relation "measure (\<lambda>(e, m, answer). nat m)")
     (auto simp: signed_divide_int_def sgn_if zdiv_mono2 intro: int_div_less_self)

declare emitMin.simps [simp del]

function emitTen :: "Encoding \<Rightarrow> nat \<Rightarrow> int \<Rightarrow> byte list \<Rightarrow> error + byte list" where
  "emitTen e i m answer =
    (if i < 10 then
       (case idx (alphabet e) (m smod 62) of
          Inl err \<Rightarrow> Inl err
        | Inr c \<Rightarrow> emitTen e (i + 1) (m sdiv 62) (answer @ [c]))
     else Inr answer)"
  by pat_completeness auto
termination
  by (relation "measure (\<lambda>(e, i, m, answer). 10 - i)") auto

declare emitTen.simps [simp del]

function encodeLoop :: "Encoding \<Rightarrow> nat \<Rightarrow> byte list \<Rightarrow> error + byte list" where
  "encodeLoop e x answer =
    (if x > 0 then
       (let q = x div bigRadix10; md = x mod bigRadix10 in
          (case (if q = 0 then emitMin e (Int64 md) answer
                 else emitTen e 0 (Int64 md) answer) of
             Inl err \<Rightarrow> Inl err
           | Inr answer' \<Rightarrow> encodeLoop e q answer'))
     else Inr answer)"
  by pat_completeness auto
termination
  by (relation "measure (\<lambda>(e, x, answer). x)") (auto simp: bigRadix10_def)

declare encodeLoop.simps [simp del]

text \<open>\<open>for _, i := range b { if i != 0 { break }; answer = append(answer, e.alphabetIdx0) }\<close>\<close>

fun leadingZeros :: "Encoding \<Rightarrow> byte list \<Rightarrow> byte list \<Rightarrow> byte list" where
  "leadingZeros e [] answer = answer"
| "leadingZeros e (i # b) answer =
    (if i \<noteq> 0 then answer else leadingZeros e b (answer @ [alphabetIdx0 e]))"

text \<open>The in-place reversal: \<open>for i := 0; i < alen/2; i++ { swap answer[i], answer[alen-1-i] }\<close>.\<close>

function reverseLoop :: "nat \<Rightarrow> byte list \<Rightarrow> byte list" where
  "reverseLoop i answer =
    (let alen = length answer in
       if i < alen div 2
       then reverseLoop (i + 1)
              (answer[i := answer ! (alen - 1 - i), alen - 1 - i := answer ! i])
       else answer)"
  by pat_completeness auto
termination
  by (relation "measure (\<lambda>(i, answer). length answer div 2 - i)") auto

declare reverseLoop.simps [simp del]

text \<open>
  \<open>maxlen\<close> is only the capacity of the buffer that \<open>append\<close> grows, so it does not
  appear in the result.
\<close>

definition EncodeToString :: "Encoding \<Rightarrow> byte list \<Rightarrow> error + byte list" where
  "EncodeToString e b =
    (case encodeLoop e (SetBytes b) [] of
       Inl err \<Rightarrow> Inl err
     | Inr answer \<Rightarrow> Inr (reverseLoop 0 (leadingZeros e b answer)))"

section \<open>\<open>EncodeUint64\<close>\<close>

text \<open>
  \<open>string(e.alphabetIdx0)\<close> converts an integer to a string: the result is the UTF-8
  encoding of the code point with that number, one byte below \<open>0x80\<close> and two bytes
  from \<open>0x80\<close> to \<open>0xFF\<close>.
\<close>

definition stringOfByte :: "byte \<Rightarrow> byte list" where
  "stringOfByte c =
    (if c < 0x80 then [c] else [0xC0 OR drop_bit 6 c, 0x80 OR (c AND 0x3F)])"

text \<open>
  \<open>for n > 0 { n, mod = n/radix, n%radix; i--; answer[i] = e.alphabet[mod] }\<close> on a
  buffer of 12 bytes, \<open>i\<close> an \<open>int\<close>; a write below index 0 panics.
\<close>

function encodeUint64Loop ::
  "Encoding \<Rightarrow> uint64 \<Rightarrow> int \<Rightarrow> byte list \<Rightarrow> error + (int \<times> byte list)" where
  "encodeUint64Loop e n i answer =
    (if n > 0 then
       (let n' = n div radix; md = n mod radix; i' = i - 1 in
          (case idx (alphabet e) (uint md) of
             Inl err \<Rightarrow> Inl err
           | Inr c \<Rightarrow>
               if 0 \<le> i' \<and> i' < int (length answer)
               then encodeUint64Loop e n' i' (answer[nat i' := c])
               else Inl IndexOutOfRange))
     else Inr (i, answer))"
  by pat_completeness auto
termination
  by (relation "measure (\<lambda>(e, n, i, answer). unat n)")
     (auto simp: radix_def unat_div word_greater_zero_iff unat_gt_0)

declare encodeUint64Loop.simps [simp del]

definition EncodeUint64 :: "Encoding \<Rightarrow> uint64 \<Rightarrow> error + byte list" where
  "EncodeUint64 e n =
    (if n = 0 then Inr (stringOfByte (alphabetIdx0 e))
     else
       (case encodeUint64Loop e n 12 (replicate 12 0) of
          Inl err \<Rightarrow> Inl err
        | Inr (i, answer) \<Rightarrow> Inr (drop (nat i) answer)))"

section \<open>\<open>DecodeToUint64\<close>\<close>

text \<open>
  The loop ranges over \<open>[]byte(src)\<close>. \<open>i\<close> is a \<open>byte\<close>, so the test \<open>i < 0\<close> compares
  unsigned 8-bit values; \<open>m = n*radix + uint64(i)\<close> wraps around at \<open>2^64\<close>.
\<close>

fun decodeUint64Loop :: "Encoding \<Rightarrow> byte list \<Rightarrow> uint64 \<Rightarrow> byte list \<Rightarrow> error + uint64" where
  "decodeUint64Loop e src n [] = Inr n"
| "decodeUint64Loop e src n (c # cs) =
    (case idx (decodeMap e) (uint c) of
       Inl err \<Rightarrow> Inl err
     | Inr i \<Rightarrow>
         if i < 0 then Inl (InvalidCharacter c src)
         else
           (let m = n * radix + ucast i in
              if m < n then Inl (Overflow src) else decodeUint64Loop e src m cs))"

definition DecodeToUint64 :: "Encoding \<Rightarrow> byte list \<Rightarrow> error + uint64" where
  "DecodeToUint64 e src = decodeUint64Loop e src 0 src"

section \<open>\<open>DecodeString\<close>\<close>

text \<open>
  \<open>for _, v := range t[:n]\<close> ranges over a \<open>string\<close>: Go decodes UTF-8 and \<open>v\<close> is a
  \<open>rune\<close> (a code point, an \<open>int32\<close>), not a byte. A byte below \<open>0x80\<close> is its own
  code point; otherwise the run time's \<open>decoderune\<close> reads a sequence of two to four
  bytes, and a malformed sequence yields \<open>U+FFFD\<close> and consumes one byte.
\<close>

definition runeError :: int where
  "runeError = 0xFFFD"

definition contb :: "byte \<Rightarrow> bool" where
  "contb c = (0x80 \<le> c \<and> c \<le> 0xBF)"

definition decoderune :: "byte list \<Rightarrow> int \<times> nat" where
  "decoderune s =
    (case s of
       [] \<Rightarrow> (runeError, 1)
     | s0 # _ \<Rightarrow>
         if s0 < 0x80 then (uint s0, 1)
         else if 0xC0 \<le> s0 \<and> s0 < 0xE0 then
           (if length s > 1 \<and> contb (s ! 1) then
              (let r = push_bit 6 (uint (s0 AND 0x1F)) OR uint (s ! 1 AND 0x3F)
               in if 0x7F < r then (r, 2) else (runeError, 1))
            else (runeError, 1))
         else if 0xE0 \<le> s0 \<and> s0 < 0xF0 then
           (if length s > 2 \<and> contb (s ! 1) \<and> contb (s ! 2) then
              (let r = push_bit 12 (uint (s0 AND 0x0F)) OR push_bit 6 (uint (s ! 1 AND 0x3F))
                         OR uint (s ! 2 AND 0x3F)
               in if 0x7FF < r \<and> \<not> (0xD800 \<le> r \<and> r \<le> 0xDFFF) then (r, 3)
                  else (runeError, 1))
            else (runeError, 1))
         else if 0xF0 \<le> s0 \<and> s0 < 0xF8 then
           (if length s > 3 \<and> contb (s ! 1) \<and> contb (s ! 2) \<and> contb (s ! 3) then
              (let r = push_bit 18 (uint (s0 AND 0x07)) OR push_bit 12 (uint (s ! 1 AND 0x3F))
                         OR push_bit 6 (uint (s ! 2 AND 0x3F)) OR uint (s ! 3 AND 0x3F)
               in if 0xFFFF < r \<and> r \<le> 0x10FFFF then (r, 4) else (runeError, 1))
            else (runeError, 1))
         else (runeError, 1))"

fun runes :: "byte list \<Rightarrow> int list" where
  "runes [] = []"
| "runes (s0 # rest) =
    (let (r, size) = decoderune (s0 # rest) in r # runes (drop (size - 1) rest))"

text \<open>
  The inner loop of a chunk. \<open>None\<close> is the early \<open>return []byte("")\<close> at a character
  that the decode map marks 255; \<open>e.decodeMap[v]\<close> is indexed by the rune.
\<close>

fun chunkTotal :: "Encoding \<Rightarrow> uint64 \<Rightarrow> int list \<Rightarrow> error + uint64 option" where
  "chunkTotal e tot [] = Inr (Some tot)"
| "chunkTotal e tot (v # vs) =
    (case idx (decodeMap e) v of
       Inl err \<Rightarrow> Inl err
     | Inr ch \<Rightarrow>
         if ch = 255 then Inr None
         else chunkTotal e (tot * 62 + ucast ch) vs)"

function decodeLoop :: "Encoding \<Rightarrow> nat \<Rightarrow> byte list \<Rightarrow> error + nat option" where
  "decodeLoop e answer t =
    (if length t > 0 then
       (let n = (if length t > 10 then 10 else length t) in
          (case chunkTotal e 0 (runes (take n t)) of
             Inl err \<Rightarrow> Inl err
           | Inr None \<Rightarrow> Inr None
           | Inr (Some tot) \<Rightarrow>
               decodeLoop e (answer * (bigRadix ! n) + unat tot) (drop n t)))
     else Inr (Some answer))"
  by pat_completeness auto
termination
  by (relation "measure (\<lambda>(e, answer, t). length t)") auto

declare decodeLoop.simps [simp del]

text \<open>\<open>for numZeros = 0; numZeros < len(b); numZeros++ { if b[numZeros] != e.alphabetIdx0 { break } }\<close>\<close>

function countZeros :: "Encoding \<Rightarrow> byte list \<Rightarrow> nat \<Rightarrow> nat" where
  "countZeros e b numZeros =
    (if numZeros < length b then
       (if b ! numZeros \<noteq> alphabetIdx0 e then numZeros
        else countZeros e b (numZeros + 1))
     else numZeros)"
  by pat_completeness auto
termination
  by (relation "measure (\<lambda>(e, b, numZeros). length b - numZeros)") auto

declare countZeros.simps [simp del]

definition DecodeString :: "Encoding \<Rightarrow> byte list \<Rightarrow> error + byte list" where
  "DecodeString e b =
    (case decodeLoop e 0 b of
       Inl err \<Rightarrow> Inl err
     | Inr None \<Rightarrow> Inr []
     | Inr (Some answer) \<Rightarrow>
         (let tmpval = Bytes answer;
              numZeros = countZeros e b 0;
              flen = numZeros + length tmpval;
              val = replicate flen 0
          in Inr (take numZeros val @ copy (drop numZeros val) tmpval)))"

section \<open>The byte form of a \<open>uint64\<close> used by the tests\<close>

text \<open>
  \<open>marshallUint64\<close> and \<open>removeLeadingZeros\<close> of the test file:
  \<open>binary.BigEndian.PutUint64\<close> writes the eight bytes, most significant first, and the
  leading zero bytes are cut, all but one when every byte is zero.
\<close>

definition PutUint64 :: "uint64 \<Rightarrow> byte list" where
  "PutUint64 v =
    [ucast (drop_bit 56 v), ucast (drop_bit 48 v), ucast (drop_bit 40 v),
     ucast (drop_bit 32 v), ucast (drop_bit 24 v), ucast (drop_bit 16 v),
     ucast (drop_bit 8 v), ucast v]"

fun firstNonZero :: "byte list \<Rightarrow> byte list option" where
  "firstNonZero [] = None"
| "firstNonZero (ch # b) = (if ch \<noteq> 0 then Some (ch # b) else firstNonZero b)"

definition removeLeadingZeros :: "byte list \<Rightarrow> byte list" where
  "removeLeadingZeros b =
    (case firstNonZero b of
       Some r \<Rightarrow> r
     | None \<Rightarrow> if length b > 0 then take 1 b else b)"

definition marshallUint64 :: "uint64 \<Rightarrow> byte list" where
  "marshallUint64 n = removeLeadingZeros (PutUint64 n)"

section \<open>Two tables with a symbol outside ASCII\<close>

text \<open>
  Any 62 pairwise distinct bytes are an alphabet. These two are the standard alphabet with
  the byte \<open>0xE9\<close> in place of the symbol of digit 0, and in place of the symbol of
  digit 1.
\<close>

definition zeroE9Alphabet :: "byte list" where
  "zeroE9Alphabet = stdAlphabet[0 := 0xE9]"

definition zeroE9Encoding :: Encoding where
  "zeroE9Encoding = projr (New zeroE9Alphabet)"

definition oneE9Alphabet :: "byte list" where
  "oneE9Alphabet = stdAlphabet[1 := 0xE9]"

definition oneE9Encoding :: Encoding where
  "oneE9Encoding = projr (New oneE9Alphabet)"

section \<open>Well-formed tables\<close>

text \<open>
  The invariant of the data model: 62 pairwise distinct symbols, a decode map that inverts
  the alphabet and holds the sentinel 255 elsewhere, and the symbol of digit 0.
  \<open>asciiTable\<close> says that every symbol is below \<open>0x80\<close>, as in the standard alphabet.
\<close>

definition tableOK :: "Encoding \<Rightarrow> bool" where
  "tableOK e \<longleftrightarrow>
     length (alphabet e) = 62 \<and> length (decodeMap e) = 256 \<and> distinct (alphabet e) \<and>
     alphabetIdx0 e = alphabet e ! 0 \<and>
     (\<forall>i<62. decodeMap e ! unat (alphabet e ! i) = of_nat i) \<and>
     (\<forall>c. c \<notin> set (alphabet e) \<longrightarrow> decodeMap e ! unat c = 255)"

definition asciiTable :: "Encoding \<Rightarrow> bool" where
  "asciiTable e \<longleftrightarrow> (\<forall>c\<in>set (alphabet e). c < 0x80)"

section \<open>Base-62 numerals\<close>

text \<open>
  The digits of a number, least significant first, without and with padding to a fixed
  width, the value of a digit sequence read most significant first, and the symbols of a
  digit sequence.
\<close>

fun digitsLSB :: "nat \<Rightarrow> nat list" where
  "digitsLSB n = (if n = 0 then [] else (n mod 62) # digitsLSB (n div 62))"

declare digitsLSB.simps [simp del]

fun padDigits :: "nat \<Rightarrow> nat \<Rightarrow> nat list" where
  "padDigits 0 n = []"
| "padDigits (Suc k) n = (n mod 62) # padDigits k (n div 62)"

definition val62 :: "nat list \<Rightarrow> nat" where
  "val62 ds = foldl (\<lambda>a d. a * 62 + d) 0 ds"

definition symbols :: "Encoding \<Rightarrow> nat list \<Rightarrow> byte list" where
  "symbols e ds = map (\<lambda>d. alphabet e ! d) ds"

section \<open>The table built by \<open>New\<close>\<close>

lemma length_fill: "length (foldl (\<lambda>dm i. dm[i := v]) xs js) = length xs"
  by (induction js arbitrary: xs) simp_all

lemma nth_fill:
  "j < length xs \<Longrightarrow>
   foldl (\<lambda>dm i. dm[i := v]) xs js ! j = (if j \<in> set js then v else xs ! j)"
  by (induction js arbitrary: xs) (auto simp: nth_list_update)

lemma fill_all: "foldl (\<lambda>dm i. dm[i := v]) xs [0..<length xs] = replicate (length xs) v"
  by (rule nth_equalityI) (simp_all add: length_fill nth_fill)

lemma fill_256:
  "foldl (\<lambda>dm i. dm[i := 255]) (replicate 256 (0::byte)) [0..<256] = replicate 256 255"
  using fill_all [of 255 "replicate 256 (0::byte)"] by simp

lemma length_invert:
  "length (foldl (\<lambda>dm (i, b). dm[unat b := of_nat i]) dm (enumerate k xs)) = length dm"
  by (induction xs arbitrary: dm k) simp_all

lemma invert_other:
  "c \<notin> set xs \<Longrightarrow>
   foldl (\<lambda>dm (i, b :: byte). dm[unat b := (of_nat i :: byte)]) dm (enumerate k xs) ! unat c
     = dm ! unat c"
  by (induction xs arbitrary: dm k) (auto simp: nth_list_update word_unat_eq_iff)

lemma invert_member:
  "distinct xs \<Longrightarrow> j < length xs \<Longrightarrow> unat (xs ! j) < length dm \<Longrightarrow>
   foldl (\<lambda>dm (i, b :: byte). dm[unat b := (of_nat i :: byte)]) dm (enumerate k xs) ! unat (xs ! j)
     = of_nat (k + j)"
proof (induction xs arbitrary: dm k j)
  case Nil
  then show ?case by simp
next
  case (Cons x xs)
  show ?case
  proof (cases j)
    case 0
    with Cons.prems show ?thesis by (simp add: invert_other)
  next
    case (Suc j')
    with Cons.prems Cons.IH [of j' "dm[unat x := of_nat k]" "Suc k"] show ?thesis by simp
  qed
qed

lemma unat_byte_less: "unat (c :: byte) < 256"
  using unsigned_less [of c] by simp

lemma copy_full: "length a = n \<Longrightarrow> copy (replicate n z) a = a"
  by (simp add: copy_def)

lemma New_tableOK:
  assumes len: "length a = 62" and dist: "distinct a" and new: "New a = Inr e"
  shows "tableOK e" and "alphabet e = a"
proof -
  let ?dm = "foldl (\<lambda>dm (i, b). dm[unat b := of_nat i]) (replicate 256 (255::byte)) (enumerate 0 a)"
  from len have ne: "idx a 0 = Inr (a ! 0)" by (simp add: idx_def)
  have e: "e = \<lparr>alphabet = a, decodeMap = ?dm, alphabetIdx0 = a ! 0\<rparr>"
    using new by (simp add: New_def Let_def ne copy_full [OF len] fill_256)
  show "alphabet e = a" by (simp add: e)
  have "decodeMap e ! unat (a ! i) = of_nat i" if "i < 62" for i
    using invert_member [OF dist, of i "replicate 256 255" 0] that len
    by (simp add: e unat_byte_less)
  moreover have "decodeMap e ! unat c = 255" if "c \<notin> set a" for c
    using invert_other [OF that, of "replicate 256 255" 0]
    by (simp add: e unat_byte_less)
  ultimately show "tableOK e"
    using len dist by (simp add: tableOK_def e length_invert)
qed

lemma length_stdAlphabet: "length stdAlphabet = 62"
  by (simp add: stdAlphabet_def)

lemma distinct_stdAlphabet: "distinct stdAlphabet"
  by (simp add: stdAlphabet_def)

lemma ascii_stdAlphabet: "\<forall>c\<in>set stdAlphabet. c < 0x80"
  by (simp add: stdAlphabet_def)

lemma New_stdAlphabet: "New stdAlphabet = Inr StdEncoding"
proof -
  have "idx stdAlphabet 0 = Inr (stdAlphabet ! 0)"
    by (simp add: idx_def length_stdAlphabet)
  then show ?thesis
    by (simp add: StdEncoding_def New_def Let_def)
qed

lemma tableOK_StdEncoding: "tableOK StdEncoding"
  by (rule New_tableOK [OF length_stdAlphabet distinct_stdAlphabet New_stdAlphabet])

lemma alphabet_StdEncoding: "alphabet StdEncoding = stdAlphabet"
  by (rule New_tableOK [OF length_stdAlphabet distinct_stdAlphabet New_stdAlphabet])

lemma asciiTable_StdEncoding: "asciiTable StdEncoding"
  by (simp add: asciiTable_def alphabet_StdEncoding ascii_stdAlphabet)

lemma alphabetIdx0_StdEncoding: "alphabetIdx0 StdEncoding = of_char CHR ''0''"
  using tableOK_StdEncoding by (simp add: tableOK_def alphabet_StdEncoding stdAlphabet_def)

lemma length_decodeMap_StdEncoding: "length (decodeMap StdEncoding) = 256"
  using tableOK_StdEncoding by (simp add: tableOK_def)

lemma tableOK_digit:
  "tableOK e \<Longrightarrow> i < 62 \<Longrightarrow> decodeMap e ! unat (alphabet e ! i) = of_nat i"
  by (simp add: tableOK_def)

lemma tableOK_invalid:
  "tableOK e \<Longrightarrow> c \<notin> set (alphabet e) \<Longrightarrow> decodeMap e ! unat c = 255"
  by (simp add: tableOK_def)

lemma decodeMap_StdEncoding_question: "decodeMap StdEncoding ! 63 = 255"
proof -
  have "(63 :: byte) \<notin> set (alphabet StdEncoding)"
    by (simp add: alphabet_StdEncoding stdAlphabet_def)
  from tableOK_invalid [OF tableOK_StdEncoding this] show ?thesis by simp
qed

lemma decodeMap_StdEncoding_Z: "decodeMap StdEncoding ! 90 = 61"
proof -
  have "alphabet StdEncoding ! 61 = 90"
    by (simp add: alphabet_StdEncoding stdAlphabet_def)
  with tableOK_digit [OF tableOK_StdEncoding, of 61] show ?thesis by simp
qed

lemma idx_byte: "length xs = 256 \<Longrightarrow> idx xs (uint (c :: byte)) = Inr (xs ! unat c)"
proof -
  assume len: "length xs = 256"
  have "uint c < 256" using uint_bounded [of c] by simp
  then show ?thesis by (simp add: idx_def len)
qed

lemma tableOK_length_decodeMap: "tableOK e \<Longrightarrow> length (decodeMap e) = 256"
  by (simp add: tableOK_def)

section \<open>The loops of \<open>EncodeToString\<close>\<close>

subsection \<open>The in-place reversal reverses\<close>

lemma length_reverseLoop: "length (reverseLoop i xs) = length xs"
proof (induction i xs rule: reverseLoop.induct)
  case (1 i answer)
  show ?case
  proof (cases "i < length answer div 2")
    case True
    with "1" show ?thesis by (subst reverseLoop.simps) (simp add: Let_def)
  next
    case False
    then show ?thesis by (subst reverseLoop.simps) (simp add: Let_def)
  qed
qed

lemma nth_reverseLoop:
  "i \<le> length xs div 2 \<Longrightarrow> j < length xs \<Longrightarrow>
   reverseLoop i xs ! j =
     (if i \<le> j \<and> j < length xs - i then xs ! (length xs - 1 - j) else xs ! j)"
proof (induction i xs arbitrary: j rule: reverseLoop.induct)
  case (1 i answer)
  let ?n = "length answer"
  show ?case
  proof (cases "i < ?n div 2")
    case True
    let ?ys = "answer[i := answer ! (?n - 1 - i), ?n - 1 - i := answer ! i]"
    have step: "reverseLoop i answer = reverseLoop (i + 1) ?ys"
      by (subst reverseLoop.simps) (simp add: Let_def True)
    have len: "length ?ys = ?n" by simp
    have IH: "reverseLoop (i + 1) ?ys ! j =
      (if i + 1 \<le> j \<and> j < ?n - (i + 1) then ?ys ! (?n - 1 - j) else ?ys ! j)"
    proof -
      have a: "i + 1 \<le> length ?ys div 2" using True by simp
      have b: "j < length ?ys" using "1.prems" by simp
      show ?thesis using "1.IH" [OF refl True a b] by (simp only: len)
    qed
    have lt: "2 * i + 1 < ?n" using True by presburger
    have ys_i: "?ys ! i = answer ! (?n - 1 - i)"
      using lt by (simp add: nth_list_update)
    have ys_ni: "?ys ! (?n - 1 - i) = answer ! i"
      using lt by (simp add: nth_list_update)
    have ys_other: "?ys ! k = answer ! k" if "k \<noteq> i" "k \<noteq> ?n - 1 - i" for k
      using that by (simp add: nth_list_update)
    consider "j = i" | "j = ?n - 1 - i" | "i < j" "j < ?n - 1 - i" | "j < i" | "?n - i \<le> j"
      by linarith
    then show ?thesis
    proof cases
      case 1
      have "\<not> i + 1 \<le> j" "i \<le> j" "j < ?n - i"
        using 1 lt by linarith+
      then show ?thesis unfolding step IH using 1 ys_i by simp
    next
      case 2
      have "\<not> j < ?n - (i + 1)" "i \<le> j" "j < ?n - i" "?n - 1 - j = i"
        using 2 lt by linarith+
      then show ?thesis unfolding step IH using 2 ys_ni by simp
    next
      case 3
      have "i + 1 \<le> j" "j < ?n - (i + 1)" "i \<le> j" "j < ?n - i"
        "?n - 1 - j \<noteq> i" "?n - 1 - j \<noteq> ?n - 1 - i"
        using 3 lt by linarith+
      then show ?thesis unfolding step IH using ys_other [of "?n - 1 - j"] by simp
    next
      case 4
      have "\<not> i + 1 \<le> j" "\<not> i \<le> j" "j \<noteq> i" "j \<noteq> ?n - 1 - i"
        using 4 lt by linarith+
      then show ?thesis unfolding step IH using ys_other [of j] by simp
    next
      case 5
      have "\<not> j < ?n - (i + 1)" "\<not> j < ?n - i" "j \<noteq> i" "j \<noteq> ?n - 1 - i"
        using 5 lt "1.prems" by linarith+
      then show ?thesis unfolding step IH using ys_other [of j] by simp
    qed
  next
    case False
    with "1.prems" have eq: "i = ?n div 2" by simp
    have stop: "reverseLoop i answer = answer"
      by (subst reverseLoop.simps) (simp add: Let_def False)
    have "?n - 1 - j = j" if "i \<le> j" "j < ?n - i"
      using that eq by linarith
    then show ?thesis unfolding stop by auto
  qed
qed

lemma reverseLoop_rev: "reverseLoop 0 xs = rev xs"
  by (rule nth_equalityI) (simp_all add: length_reverseLoop nth_reverseLoop rev_nth)

subsection \<open>Leading zero bytes\<close>

lemma SetBytes_replicate_zero: "SetBytes (replicate k 0) = 0"
  by (induction k) (simp_all add: SetBytes_def)

lemma leadingZeros_eq:
  "leadingZeros e b answer =
     answer @ replicate (length (takeWhile (\<lambda>x. x = 0) b)) (alphabetIdx0 e)"
  by (induction b arbitrary: answer) (simp_all add: replicate_app_Cons_same)

lemma encodeLoop_zero: "encodeLoop e 0 answer = Inr answer"
  by (subst encodeLoop.simps) simp

lemma EncodeToString_replicate_zero:
  "EncodeToString e (replicate k 0) = Inr (replicate k (alphabetIdx0 e))"
  by (simp add: EncodeToString_def SetBytes_replicate_zero encodeLoop_zero leadingZeros_eq
      reverseLoop_rev)

subsection \<open>The digits that the chunked loop emits\<close>

lemma smod_nonneg: "(int n) smod 62 = int (n mod 62)"
  by (simp add: signed_modulo_int_def sgn_if zmod_int)

lemma sdiv_nonneg: "(int n) sdiv 62 = int (n div 62)"
  by (simp add: signed_divide_int_def sgn_if zdiv_int)

lemma idx_alphabet:
  "length (alphabet e) = 62 \<Longrightarrow> idx (alphabet e) (int (n mod 62)) = Inr (alphabet e ! (n mod 62))"
  by (simp add: idx_def)

lemma emitMin_digits:
  "length (alphabet e) = 62 \<Longrightarrow>
   emitMin e (int n) answer = Inr (answer @ symbols e (digitsLSB n))"
proof (induction n arbitrary: answer rule: digitsLSB.induct)
  case (1 n)
  show ?case
  proof (cases "n = 0")
    case True
    then show ?thesis
      by (subst emitMin.simps) (simp add: digitsLSB.simps symbols_def)
  next
    case False
    have "emitMin e (int n) answer = emitMin e (int (n div 62)) (answer @ [alphabet e ! (n mod 62)])"
      using False "1.prems"
      by (subst emitMin.simps) (simp add: smod_nonneg sdiv_nonneg idx_alphabet)
    also have "\<dots> = Inr ((answer @ [alphabet e ! (n mod 62)]) @ symbols e (digitsLSB (n div 62)))"
      using "1.IH" [OF False "1.prems"] .
    also have "\<dots> = Inr (answer @ symbols e (digitsLSB n))"
      using False by (subst (2) digitsLSB.simps) (simp add: symbols_def)
    finally show ?thesis .
  qed
qed

lemma emitTen_digits:
  "length (alphabet e) = 62 \<Longrightarrow> i \<le> 10 \<Longrightarrow>
   emitTen e i (int n) answer = Inr (answer @ symbols e (padDigits (10 - i) n))"
proof (induction "10 - i" arbitrary: i n answer)
  case 0
  then have "i = 10" by simp
  then show ?case by (subst emitTen.simps) (simp add: symbols_def)
next
  case (Suc k)
  then have lt: "i < 10" and k: "k = 10 - (i + 1)" and pd: "10 - i = Suc k" by simp_all
  have "emitTen e i (int n) answer
      = emitTen e (i + 1) (int (n div 62)) (answer @ [alphabet e ! (n mod 62)])"
    using lt Suc.prems
    by (subst emitTen.simps) (simp add: smod_nonneg sdiv_nonneg idx_alphabet)
  also have "\<dots> = Inr ((answer @ [alphabet e ! (n mod 62)]) @ symbols e (padDigits k (n div 62)))"
    using Suc.hyps(1) [OF k Suc.prems(1)] lt k by simp
  finally show ?case by (simp add: pd symbols_def)
qed

lemma bigRadix10_pow: "bigRadix10 = 62 ^ 10"
  by (simp add: bigRadix10_def)

lemma Int64_small: "x < 2 ^ 63 \<Longrightarrow> Int64 x = int x"
  unfolding Int64_def signed_of_nat
  by (simp add: signed_take_bit_int_eq_self)

lemma Int64_mod: "Int64 (x mod bigRadix10) = int (x mod bigRadix10)"
proof -
  have "x mod bigRadix10 < bigRadix10" by (simp add: bigRadix10_def)
  also have "bigRadix10 < 2 ^ 63" by (simp add: bigRadix10_def)
  finally show ?thesis by (rule Int64_small)
qed

lemma digitsLSB_split:
  "0 < x div 62 ^ k \<Longrightarrow>
   digitsLSB x = padDigits k (x mod 62 ^ k) @ digitsLSB (x div 62 ^ k)"
proof (induction k arbitrary: x)
  case 0
  then show ?case by simp
next
  case (Suc k)
  from Suc.prems have x: "x \<noteq> 0" by (auto intro: ccontr)
  have d: "x div 62 div 62 ^ k = x div 62 ^ Suc k"
    by (simp add: div_mult2_eq)
  have m1: "x mod (62 * 62 ^ k) mod 62 = x mod 62"
    by (simp add: mod_mod_cancel)
  have m2: "x mod (62 * 62 ^ k) div 62 = x div 62 mod 62 ^ k"
    by (simp add: mod_mult2_eq)
  have "digitsLSB x = (x mod 62) # digitsLSB (x div 62)"
    using x by (subst digitsLSB.simps) simp
  also have "digitsLSB (x div 62) = padDigits k (x div 62 mod 62 ^ k) @ digitsLSB (x div 62 ^ Suc k)"
    using Suc.IH [of "x div 62"] Suc.prems d by simp
  finally show ?case by (simp add: m1 m2)
qed

lemma encodeLoop_digits:
  "length (alphabet e) = 62 \<Longrightarrow>
   encodeLoop e x answer = Inr (answer @ symbols e (digitsLSB x))"
proof (induction x arbitrary: answer rule: less_induct)
  case (less x)
  show ?case
  proof (cases "x = 0")
    case True
    then show ?thesis
      by (subst encodeLoop.simps) (simp add: digitsLSB.simps symbols_def)
  next
    case False
    let ?q = "x div bigRadix10" and ?r = "x mod bigRadix10"
    have q_less: "?q < x" using False by (simp add: bigRadix10_def)
    show ?thesis
    proof (cases "?q = 0")
      case True
      then have xr: "?r = x" by (simp add: bigRadix10_def)
      have i64: "Int64 x = int x" using Int64_mod [of x] xr by simp
      have "encodeLoop e x answer = encodeLoop e 0 (answer @ symbols e (digitsLSB x))"
        using False True less.prems
        by (subst encodeLoop.simps) (simp add: Let_def i64 emitMin_digits xr)
      then show ?thesis
        by (subst (asm) (2) encodeLoop.simps) simp
    next
      case q: False
      have split: "digitsLSB x = padDigits 10 ?r @ digitsLSB ?q"
        using digitsLSB_split [of x 10] q by (simp add: bigRadix10_pow)
      have "encodeLoop e x answer = encodeLoop e ?q (answer @ symbols e (padDigits 10 ?r))"
        using False q less.prems
        by (subst encodeLoop.simps) (simp add: Let_def Int64_mod emitTen_digits)
      also have "\<dots> = Inr ((answer @ symbols e (padDigits 10 ?r)) @ symbols e (digitsLSB ?q))"
        by (rule less.IH [OF q_less less.prems])
      finally show ?thesis by (simp add: split symbols_def)
    qed
  qed
qed

lemma symbols_Cons: "symbols e (d # ds) = alphabet e ! d # symbols e ds"
  by (simp add: symbols_def)

lemma symbols_Nil: "symbols e [] = []"
  by (simp add: symbols_def)

lemma symbols_rev: "symbols e (rev ds) = rev (symbols e ds)"
  by (simp add: symbols_def rev_map)

subsection \<open>The string that \<open>EncodeToString\<close> returns\<close>

lemma EncodeToString_digits:
  assumes len: "length (alphabet e) = 62"
  shows "EncodeToString e b =
    Inr (replicate (length (takeWhile (\<lambda>x. x = 0) b)) (alphabetIdx0 e)
         @ symbols e (rev (digitsLSB (SetBytes b))))"
  by (simp add: EncodeToString_def encodeLoop_digits [OF len] leadingZeros_eq reverseLoop_rev
      symbols_rev)

section \<open>The loop of \<open>EncodeUint64\<close>\<close>

lemma digitsLSB_zero: "digitsLSB 0 = []"
  by (subst digitsLSB.simps) simp

lemma digitsLSB_pos: "0 < x \<Longrightarrow> digitsLSB x = (x mod 62) # digitsLSB (x div 62)"
  by (subst digitsLSB.simps) simp

lemma length_digitsLSB: "x < 62 ^ k \<Longrightarrow> length (digitsLSB x) \<le> k"
proof (induction k arbitrary: x)
  case 0
  then show ?case by (simp add: digitsLSB_zero)
next
  case (Suc k)
  show ?case
  proof (cases "x = 0")
    case True
    then show ?thesis by (simp add: digitsLSB_zero)
  next
    case False
    from Suc.prems have "x div 62 < 62 ^ k"
      by (simp add: less_mult_imp_div_less mult.commute)
    from Suc.IH [OF this] False show ?thesis by (simp add: digitsLSB_pos)
  qed
qed

lemma length_digitsLSB_uint64: "length (digitsLSB (unat (n :: uint64))) \<le> 11"
proof -
  have "unat n < 2 ^ 64" using unsigned_less [of n] by simp
  also have "(2 :: nat) ^ 64 < 62 ^ 11" by simp
  finally show ?thesis by (rule length_digitsLSB)
qed

lemma encodeUint64Loop_digits:
  assumes len: "length (alphabet e) = 62"
  shows "length (digitsLSB (unat n)) \<le> k \<Longrightarrow> k \<le> length answer \<Longrightarrow>
    \<exists>answer'. encodeUint64Loop e n (int k) answer
        = Inr (int (k - length (digitsLSB (unat n))), answer')
      \<and> length answer' = length answer
      \<and> drop (k - length (digitsLSB (unat n))) answer'
        = symbols e (rev (digitsLSB (unat n))) @ drop k answer"
proof (induction "unat n" arbitrary: n k answer rule: less_induct)
  case less
  show ?case
  proof (cases "n = 0")
    case True
    then show ?thesis
      by (subst encodeUint64Loop.simps) (simp add: digitsLSB_zero symbols_Nil)
  next
    case False
    then have pos: "0 < unat n" by (simp add: unat_gt_0)
    let ?d = "unat n mod 62"
    let ?c = "alphabet e ! ?d"
    let ?n' = "n div radix"
    have un': "unat ?n' = unat n div 62" by (simp add: radix_def unat_div)
    have umd: "uint (n mod radix) = int ?d"
      by (simp add: uint_nat unat_mod radix_def)
    have ds: "digitsLSB (unat n) = ?d # digitsLSB (unat ?n')"
      using pos by (simp add: digitsLSB_pos un')
    from less.prems ds have k: "0 < k" "length (digitsLSB (unat ?n')) \<le> k - 1"
      by simp_all
    have lt: "unat ?n' < unat n" using pos by (simp add: un')
    have len': "k - 1 \<le> length (answer[k - 1 := ?c])" using less.prems by simp
    from less.hyps [OF lt k(2) len']
    obtain answer' where
      run: "encodeUint64Loop e ?n' (int (k - 1)) (answer[k - 1 := ?c])
          = Inr (int (k - 1 - length (digitsLSB (unat ?n'))), answer')"
      and la: "length answer' = length answer"
      and dr: "drop (k - 1 - length (digitsLSB (unat ?n'))) answer'
          = symbols e (rev (digitsLSB (unat ?n'))) @ drop (k - 1) (answer[k - 1 := ?c])"
      by auto
    have ik: "int k - 1 = int (k - 1)" using k by simp
    have kl: "k - 1 < length answer" using k less.prems by linarith
    have step: "encodeUint64Loop e n (int k) answer
        = encodeUint64Loop e ?n' (int (k - 1)) (answer[k - 1 := ?c])"
      using False kl len
      by (subst encodeUint64Loop.simps)
         (simp add: Let_def umd idx_def ik word_greater_zero_iff del: of_nat_diff)
    have tail: "drop (k - 1) (answer[k - 1 := ?c]) = ?c # drop k answer"
      using k less.prems
      by (metis Cons_nth_drop_Suc Suc_pred' drop_update_cancel length_list_update
          less_eq_Suc_le lessI nth_list_update_eq)
    show ?thesis
      using run la dr tail
      by (simp add: step ds symbols_def)
  qed
qed

lemma EncodeUint64_digits:
  assumes len: "length (alphabet e) = 62" and n: "n \<noteq> 0"
  shows "EncodeUint64 e n = Inr (symbols e (rev (digitsLSB (unat n))))"
proof -
  from encodeUint64Loop_digits [OF len, of n 12 "replicate 12 0"] length_digitsLSB_uint64 [of n]
  obtain answer' where
    "encodeUint64Loop e n 12 (replicate 12 0)
       = Inr (int (12 - length (digitsLSB (unat n))), answer')"
    "drop (12 - length (digitsLSB (unat n))) answer' = symbols e (rev (digitsLSB (unat n)))"
    by auto
  then show ?thesis using n by (simp add: EncodeUint64_def)
qed

section \<open>The loop of \<open>DecodeToUint64\<close> on strings of symbols\<close>

lemma foldl62_mono: "a \<le> foldl (\<lambda>a d. a * 62 + d) a ds" for a :: nat
proof (induction ds arbitrary: a)
  case Nil
  then show ?case by simp
next
  case (Cons d ds)
  have "a \<le> a * 62 + d" by simp
  also have "\<dots> \<le> foldl (\<lambda>a d. a * 62 + d) (a * 62 + d) ds" by (rule Cons.IH)
  finally show ?case by simp
qed

lemma ucast_digit: "d < 256 \<Longrightarrow> (ucast (of_nat d :: byte) :: uint64) = of_nat d"
  by (simp add: unsigned_of_nat take_bit_nat_eq_self)

lemma unat_of_nat_uint64: "x < 2 ^ 64 \<Longrightarrow> unat (of_nat x :: uint64) = x"
  by (simp add: unat_of_nat)

lemma decodeUint64Loop_digits:
  assumes ok: "tableOK e"
  shows "\<forall>d\<in>set ds. d < 62 \<Longrightarrow> foldl (\<lambda>a d. a * 62 + d) (unat n) ds < 2 ^ 64 \<Longrightarrow>
    decodeUint64Loop e src n (symbols e ds) = Inr (of_nat (foldl (\<lambda>a d. a * 62 + d) (unat n) ds))"
proof (induction ds arbitrary: n)
  case Nil
  then show ?case by (simp add: symbols_def)
next
  case (Cons d ds)
  let ?c = "alphabet e ! d"
  let ?m = "n * radix + ucast (of_nat d :: byte)"
  from Cons.prems have d: "d < 62" by simp
  have rd: "idx (decodeMap e) (uint ?c) = Inr (of_nat d)"
    using tableOK_digit [OF ok d] by (simp add: idx_byte [OF tableOK_length_decodeMap [OF ok]])
  have "unat n * 62 + d \<le> foldl (\<lambda>a d. a * 62 + d) (unat n * 62 + d) ds"
    by (rule foldl62_mono)
  with Cons.prems have small: "unat n * 62 + d < 2 ^ 64" by simp
  have m: "?m = of_nat (unat n * 62 + d)"
    using d by (simp add: radix_def ucast_digit)
  have um: "unat ?m = unat n * 62 + d"
    unfolding m by (rule unat_of_nat_uint64 [OF small])
  have nlt: "\<not> ?m < n"
    by (simp add: word_less_nat_alt um)
  have "decodeUint64Loop e src n (symbols e (d # ds)) = decodeUint64Loop e src ?m (symbols e ds)"
    using nlt by (simp add: symbols_Cons rd Let_def)
  also have "\<dots> = Inr (of_nat (foldl (\<lambda>a d. a * 62 + d) (unat ?m) ds))"
    using Cons.prems by (intro Cons.IH) (simp_all add: um)
  finally show ?case by (simp add: um)
qed

lemma val62_snoc: "val62 (ds @ [d]) = val62 ds * 62 + d"
  by (simp add: val62_def)

lemma val62_digitsLSB: "val62 (rev (digitsLSB x)) = x"
proof (induction x rule: digitsLSB.induct)
  case (1 n)
  show ?case
  proof (cases "n = 0")
    case True
    then show ?thesis by (simp add: digitsLSB_zero val62_def)
  next
    case False
    with "1.IH" show ?thesis by (simp add: digitsLSB_pos val62_snoc)
  qed
qed

lemma digitsLSB_less: "d \<in> set (digitsLSB x) \<Longrightarrow> d < 62"
proof (induction x rule: digitsLSB.induct)
  case (1 n)
  show ?case
  proof (cases "n = 0")
    case True
    with "1.prems" show ?thesis by (simp add: digitsLSB_zero)
  next
    case False
    with "1.prems" "1.IH" show ?thesis by (auto simp: digitsLSB_pos)
  qed
qed

lemma DecodeToUint64_digits:
  assumes ok: "tableOK e" and ds: "\<forall>d\<in>set ds. d < 62" and small: "val62 ds < 2 ^ 64"
  shows "DecodeToUint64 e (symbols e ds) = Inr (of_nat (val62 ds))"
  using decodeUint64Loop_digits [OF ok ds, of 0 "symbols e ds"] small
  by (simp add: DecodeToUint64_def val62_def)

lemma stringOfByte_ascii: "c < 0x80 \<Longrightarrow> stringOfByte c = [c]"
  by (simp add: stringOfByte_def)

lemma roundtrip_uint64:
  assumes ok: "tableOK e" and z: "alphabetIdx0 e < 0x80"
  shows "\<exists>s. EncodeUint64 e n = Inr s \<and> DecodeToUint64 e s = Inr n"
proof (cases "n = 0")
  case True
  have "alphabetIdx0 e = alphabet e ! 0" using ok by (simp add: tableOK_def)
  then have s: "stringOfByte (alphabetIdx0 e) = symbols e [0]"
    using z by (simp add: stringOfByte_ascii symbols_def)
  have "DecodeToUint64 e (symbols e [0]) = Inr (of_nat (val62 [0]))"
    by (rule DecodeToUint64_digits [OF ok]) (simp_all add: val62_def)
  then show ?thesis using True by (simp add: EncodeUint64_def s val62_def)
next
  case False
  have len: "length (alphabet e) = 62" using ok by (simp add: tableOK_def)
  have enc: "EncodeUint64 e n = Inr (symbols e (rev (digitsLSB (unat n))))"
    by (rule EncodeUint64_digits [OF len False])
  have "unat n < 2 ^ 64" using unsigned_less [of n] by simp
  then have "DecodeToUint64 e (symbols e (rev (digitsLSB (unat n))))
      = Inr (of_nat (val62 (rev (digitsLSB (unat n)))))"
    by (intro DecodeToUint64_digits [OF ok]) (auto simp: val62_digitsLSB dest: digitsLSB_less)
  then show ?thesis by (simp add: enc val62_digitsLSB)
qed

section \<open>The byte form of a \<open>uint64\<close> and the refinement of \<open>EncodeToString\<close>\<close>

lemma unat_shift: "unat (drop_bit k n) = unat n div 2 ^ k" for n :: uint64
  unfolding unat_drop_bit_eq by (simp add: drop_bit_eq_div)

lemma unat_low_byte: "unat (ucast w :: byte) = unat w mod 256" for w :: uint64
  by (simp add: unsigned_ucast_eq take_bit_eq_mod)

lemma horner_step: "j = k + 8 \<Longrightarrow> N div 2 ^ j * 256 + N div 2 ^ k mod 256 = N div 2 ^ k"
  for N :: nat
proof -
  assume "j = k + 8"
  then have "N div 2 ^ j = N div 2 ^ k div 256"
    by (simp add: power_add div_mult2_eq)
  then show ?thesis by simp
qed

lemma SetBytes_eight:
  "SetBytes [b0, b1, b2, b3, b4, b5, b6, b7] =
    ((((((unat b0 * 256 + unat b1) * 256 + unat b2) * 256 + unat b3) * 256 + unat b4) * 256
      + unat b5) * 256 + unat b6) * 256 + unat b7"
  by (simp add: SetBytes_def)

lemma SetBytes_PutUint64: "SetBytes (PutUint64 n) = unat n"
proof -
  let ?N = "unat n"
  have top: "?N div 2 ^ 56 mod 256 = ?N div 2 ^ 56"
  proof -
    have "?N < 2 ^ 64" using unsigned_less [of n] by simp
    then have "?N div 2 ^ 56 < 256" by (simp add: less_mult_imp_div_less)
    then show ?thesis by simp
  qed
  have low: "?N mod 256 = ?N div 2 ^ 0 mod 256" by simp
  have "SetBytes (PutUint64 n) =
    ((((((?N div 2 ^ 56 mod 256 * 256 + ?N div 2 ^ 48 mod 256) * 256 + ?N div 2 ^ 40 mod 256) * 256
      + ?N div 2 ^ 32 mod 256) * 256 + ?N div 2 ^ 24 mod 256) * 256
      + ?N div 2 ^ 16 mod 256) * 256 + ?N div 2 ^ 8 mod 256) * 256 + ?N mod 256"
    by (simp only: PutUint64_def SetBytes_eight unat_low_byte unat_shift)
  also have "\<dots> = ?N div 2 ^ 0"
    by (simp only: top low horner_step [of 56 48] horner_step [of 48 40] horner_step [of 40 32]
        horner_step [of 32 24] horner_step [of 24 16] horner_step [of 16 8] horner_step [of 8 0]
        refl)
  finally show ?thesis by simp
qed

lemma SetBytes_Cons_zero: "SetBytes (0 # b) = SetBytes b"
  by (simp add: SetBytes_def)

lemma SetBytes_dropWhile: "SetBytes (dropWhile (\<lambda>x. x = 0) b) = SetBytes b"
  by (induction b) (simp_all add: SetBytes_Cons_zero)

lemma firstNonZero_None: "firstNonZero b = None \<Longrightarrow> SetBytes b = 0"
  by (induction b) (simp_all add: SetBytes_Cons_zero SetBytes_def split: if_splits)

lemma firstNonZero_Some:
  "firstNonZero b = Some r \<Longrightarrow>
   r = dropWhile (\<lambda>x. x = 0) b \<and> takeWhile (\<lambda>x. x = 0) r = []"
  by (induction b) (auto split: if_splits)

lemma marshallUint64_zero: "marshallUint64 0 = [0]"
  by (simp add: marshallUint64_def removeLeadingZeros_def PutUint64_def)

lemma marshallUint64_nonzero:
  assumes "n \<noteq> 0"
  shows "SetBytes (marshallUint64 n) = unat n"
    and "takeWhile (\<lambda>x. x = 0) (marshallUint64 n) = []"
proof -
  have nz: "SetBytes (PutUint64 n) \<noteq> 0"
    using assms by (simp add: SetBytes_PutUint64 unat_eq_0)
  then obtain r where r: "firstNonZero (PutUint64 n) = Some r"
    using firstNonZero_None [of "PutUint64 n"] by (cases "firstNonZero (PutUint64 n)") auto
  from firstNonZero_Some [OF r]
  have eq: "r = dropWhile (\<lambda>x. x = 0) (PutUint64 n)" and tw: "takeWhile (\<lambda>x. x = 0) r = []"
    by blast+
  have m: "marshallUint64 n = r"
    by (simp add: marshallUint64_def removeLeadingZeros_def r)
  show "SetBytes (marshallUint64 n) = unat n"
    by (simp add: m eq SetBytes_dropWhile SetBytes_PutUint64)
  show "takeWhile (\<lambda>x. x = 0) (marshallUint64 n) = []"
    by (simp add: m tw)
qed

lemma EncodeUint64_refines:
  assumes len: "length (alphabet e) = 62" and z: "alphabetIdx0 e < 0x80"
  shows "EncodeUint64 e n = EncodeToString e (marshallUint64 n)"
    and "\<exists>s. EncodeUint64 e n = Inr s"
proof -
  show eq: "EncodeUint64 e n = EncodeToString e (marshallUint64 n)"
  proof (cases "n = 0")
    case True
    have "EncodeToString e [0] = Inr [alphabetIdx0 e]"
      using EncodeToString_replicate_zero [of e 1] by simp
    then show ?thesis
      using True z by (simp add: EncodeUint64_def stringOfByte_ascii marshallUint64_zero)
  next
    case False
    show ?thesis
      by (simp add: EncodeUint64_digits [OF len False] EncodeToString_digits [OF len]
          marshallUint64_nonzero [OF False])
  qed
  show "\<exists>s. EncodeUint64 e n = Inr s"
    by (simp add: eq EncodeToString_digits [OF len])
qed

section \<open>\<open>DecodeString\<close> on encoded strings\<close>

subsection \<open>Ranging over a string of ASCII bytes\<close>

lemma decoderune_ascii: "c < 0x80 \<Longrightarrow> decoderune (c # rest) = (uint c, 1)"
  by (simp add: decoderune_def)

lemma runes_ascii: "\<forall>c\<in>set t. c < 0x80 \<Longrightarrow> runes t = map uint t"
  by (induction t) (simp_all add: decoderune_ascii)

subsection \<open>The value of a digit sequence\<close>

lemma val62_Nil: "val62 [] = 0"
  by (simp add: val62_def)

lemma val62_append: "val62 (xs @ ys) = val62 xs * 62 ^ length ys + val62 ys"
proof (induction ys rule: rev_induct)
  case Nil
  then show ?case by (simp add: val62_Nil)
next
  case (snoc y ys)
  have "val62 (xs @ ys @ [y]) = val62 (xs @ ys) * 62 + y"
    using val62_snoc [of "xs @ ys" y] by simp
  then show ?case by (simp add: snoc.IH val62_snoc algebra_simps)
qed

lemma val62_replicate_zero: "val62 (replicate k 0) = 0"
  by (induction k) (simp_all add: val62_Nil val62_snoc replicate_append_same [symmetric])

lemma val62_bound: "\<forall>d\<in>set ds. d < 62 \<Longrightarrow> val62 ds < 62 ^ length ds"
proof (induction ds rule: rev_induct)
  case Nil
  then show ?case by (simp add: val62_Nil)
next
  case (snoc d ds)
  then have "val62 ds < 62 ^ length ds" and "d < 62" by simp_all
  then have "val62 ds * 62 + d < 62 ^ length ds * 62" by linarith
  then show ?case by (simp add: val62_snoc mult.commute)
qed

lemma word_fold_of_nat:
  "foldl (\<lambda>t d. t * 62 + of_nat d) (of_nat a :: uint64) ds
     = of_nat (foldl (\<lambda>a d. a * 62 + d) a ds)"
proof (induction ds arbitrary: a)
  case Nil
  then show ?case by simp
next
  case (Cons d ds)
  have "(of_nat a :: uint64) * 62 + of_nat d = of_nat (a * 62 + d)" by simp
  then show ?case using Cons.IH [of "a * 62 + d"] by simp
qed

subsection \<open>The loops of \<open>DecodeString\<close> on strings of symbols\<close>

lemma digit_not_sentinel: "d < 62 \<Longrightarrow> (of_nat d :: byte) \<noteq> 255"
proof
  assume d: "d < 62" and eq: "(of_nat d :: byte) = 255"
  from d have "unat (of_nat d :: byte) = d" by (simp add: unat_of_nat)
  with eq d show False by simp
qed

lemma chunkTotal_digits:
  assumes ok: "tableOK e"
  shows "\<forall>d\<in>set ds. d < 62 \<Longrightarrow>
    chunkTotal e tot (map uint (symbols e ds))
      = Inr (Some (foldl (\<lambda>t d. t * 62 + of_nat d) tot ds))"
proof (induction ds arbitrary: tot)
  case Nil
  then show ?case by (simp add: symbols_def)
next
  case (Cons d ds)
  from Cons.prems have d: "d < 62" by simp
  have rd: "idx (decodeMap e) (uint (alphabet e ! d)) = Inr (of_nat d)"
    using tableOK_digit [OF ok d] by (simp add: idx_byte [OF tableOK_length_decodeMap [OF ok]])
  have uc: "(ucast (of_nat d :: byte) :: uint64) = of_nat d"
    using d by (simp add: ucast_digit)
  show ?case
    using Cons.prems Cons.IH [of "tot * 62 + of_nat d"]
    by (simp add: symbols_Cons rd digit_not_sentinel [OF d] uc)
qed

lemma chunkTotal_val62:
  assumes ok: "tableOK e" and ds: "\<forall>d\<in>set ds. d < 62" and len: "length ds \<le> 10"
  shows "\<exists>tot. chunkTotal e 0 (map uint (symbols e ds)) = Inr (Some tot) \<and> unat tot = val62 ds"
proof -
  have "val62 ds < 62 ^ length ds" by (rule val62_bound [OF ds])
  also have "(62 :: nat) ^ length ds \<le> 62 ^ 10" by (rule power_increasing) (simp_all add: len)
  also have "(62 :: nat) ^ 10 < 2 ^ 64" by simp
  finally have small: "val62 ds < 2 ^ 64" .
  have "chunkTotal e 0 (map uint (symbols e ds)) = Inr (Some (of_nat (val62 ds)))"
    using chunkTotal_digits [OF ok ds, of 0] word_fold_of_nat [of 0 ds]
    by (simp add: val62_def)
  then show ?thesis using unat_of_nat_uint64 [OF small] by simp
qed

lemma bigRadix_nth: "0 < n \<Longrightarrow> n \<le> 10 \<Longrightarrow> bigRadix ! n = 62 ^ n"
proof -
  assume n: "0 < n" "n \<le> 10"
  show ?thesis
  proof (cases "n \<le> 5")
    case True
    with n have "n \<in> {1, 2, 3, 4, 5}" by auto
    then show ?thesis
      by (auto simp: bigRadix_def)
  next
    case False
    with n have "n \<in> {6, 7, 8, 9, 10}" by auto
    then show ?thesis
      by (auto simp: bigRadix_def bigRadix10_def)
  qed
qed

lemma symbols_take: "take n (symbols e ds) = symbols e (take n ds)"
  by (simp add: symbols_def take_map)

lemma symbols_drop: "drop n (symbols e ds) = symbols e (drop n ds)"
  by (simp add: symbols_def drop_map)

lemma length_symbols: "length (symbols e ds) = length ds"
  by (simp add: symbols_def)

lemma symbols_ascii:
  assumes "tableOK e" and "asciiTable e" and "\<forall>d\<in>set ds. d < 62"
  shows "\<forall>c\<in>set (symbols e ds). c < 0x80"
proof
  fix c assume "c \<in> set (symbols e ds)"
  then obtain d where d: "d \<in> set ds" and c: "c = alphabet e ! d"
    by (auto simp: symbols_def)
  from d assms(3) have "d < length (alphabet e)"
    using assms(1) by (simp add: tableOK_def)
  then have "c \<in> set (alphabet e)" unfolding c by (rule nth_mem)
  with assms(2) show "c < 0x80" by (simp add: asciiTable_def)
qed

lemma decodeLoop_digits:
  assumes ok: "tableOK e" and ascii: "asciiTable e"
  shows "\<forall>d\<in>set ds. d < 62 \<Longrightarrow>
    decodeLoop e answer (symbols e ds) = Inr (Some (answer * 62 ^ length ds + val62 ds))"
proof (induction "length ds" arbitrary: ds answer rule: less_induct)
  case less
  show ?case
  proof (cases "ds = []")
    case True
    then show ?thesis
      by (subst decodeLoop.simps) (simp add: symbols_def val62_Nil)
  next
    case False
    define n where "n = (if length ds > 10 then 10 else length ds)"
    have n: "0 < n" "n \<le> 10" "n \<le> length ds"
      using False by (simp_all add: n_def)
    let ?hd = "take n ds" and ?tl = "drop n ds"
    have hd_digits: "\<forall>d\<in>set ?hd. d < 62" and tl_digits: "\<forall>d\<in>set ?tl. d < 62"
      using less.prems by (auto dest: in_set_takeD in_set_dropD)
    have len_hd: "length ?hd \<le> 10" using n by simp
    have rn: "runes (symbols e ?hd) = map uint (symbols e ?hd)"
      by (rule runes_ascii [OF symbols_ascii [OF ok ascii hd_digits]])
    from chunkTotal_val62 [OF ok hd_digits len_hd]
    obtain tot where tot: "chunkTotal e 0 (map uint (symbols e ?hd)) = Inr (Some tot)"
      and ut: "unat tot = val62 ?hd" by blast
    have shorter: "length ?tl < length ds" using n by simp
    have unfold: "decodeLoop e answer (symbols e ds) =
        (case chunkTotal e 0 (runes (take n (symbols e ds))) of
           Inl err \<Rightarrow> Inl err
         | Inr None \<Rightarrow> Inr None
         | Inr (Some tot) \<Rightarrow>
             decodeLoop e (answer * (bigRadix ! n) + unat tot) (drop n (symbols e ds)))"
    proof -
      have pos: "length (symbols e ds) > 0"
        using False by (simp add: length_symbols)
      have nval: "(if length (symbols e ds) > 10 then 10 else length (symbols e ds)) = n"
        by (simp add: n_def length_symbols)
      show ?thesis
        by (subst decodeLoop.simps) (simp only: pos if_True nval Let_def)
    qed
    have step: "decodeLoop e answer (symbols e ds)
        = decodeLoop e (answer * 62 ^ n + val62 ?hd) (symbols e ?tl)"
      unfolding unfold
      by (simp add: symbols_take symbols_drop rn tot ut bigRadix_nth [OF n(1,2)])
    note step
    also have "\<dots> = Inr (Some ((answer * 62 ^ n + val62 ?hd) * 62 ^ length ?tl + val62 ?tl))"
      by (rule less.hyps [OF shorter tl_digits])
    also have "(answer * 62 ^ n + val62 ?hd) * 62 ^ length ?tl + val62 ?tl
        = answer * 62 ^ length ds + val62 ds"
    proof -
      have "val62 ds = val62 ?hd * 62 ^ length ?tl + val62 ?tl"
        using val62_append [of ?hd ?tl] by simp
      moreover have "(62 :: nat) ^ length ds = 62 ^ n * 62 ^ length ?tl"
        using n by (simp flip: power_add)
      ultimately show ?thesis by (simp add: algebra_simps)
    qed
    finally show ?thesis .
  qed
qed

subsection \<open>Counting the leading zero symbols\<close>

lemma countZeros_from:
  "i \<le> length b \<Longrightarrow>
   countZeros e b i = i + length (takeWhile (\<lambda>c. c = alphabetIdx0 e) (drop i b))"
proof (induction e b i rule: countZeros.induct)
  case (1 e b i)
  show ?case
  proof (cases "i < length b")
    case True
    then have dr: "drop i b = b ! i # drop (Suc i) b"
      by (simp add: Cons_nth_drop_Suc)
    show ?thesis
    proof (cases "b ! i = alphabetIdx0 e")
      case eq: True
      have "countZeros e b i = countZeros e b (i + 1)"
        using True eq by (subst countZeros.simps) simp
      also have "\<dots> = i + 1 + length (takeWhile (\<lambda>c. c = alphabetIdx0 e) (drop (i + 1) b))"
        using "1.IH" [OF True] eq True by simp
      finally show ?thesis by (simp add: dr eq)
    next
      case False
      then show ?thesis
        using True by (subst countZeros.simps) (simp add: dr)
    qed
  next
    case False
    with "1.prems" show ?thesis
      by (subst countZeros.simps) simp
  qed
qed

lemma countZeros_eq: "countZeros e b 0 = length (takeWhile (\<lambda>c. c = alphabetIdx0 e) b)"
  using countZeros_from [of 0 b e] by simp

subsection \<open>The bytes of a big integer\<close>

lemma Bytes_zero: "Bytes 0 = []"
  by (subst Bytes.simps) simp

lemma Bytes_shift:
  "0 < x * 256 + unat c \<Longrightarrow> Bytes (x * 256 + unat c) = Bytes x @ [c]" for c :: byte
proof -
  assume pos: "0 < x * 256 + unat c"
  have c: "unat c < 256" by (rule unat_byte_less)
  then have "(x * 256 + unat c) div 256 = x" "(x * 256 + unat c) mod 256 = unat c"
    by simp_all
  then show ?thesis
    using pos by (subst Bytes.simps) simp
qed

lemma Bytes_foldl_pos:
  "0 < x \<Longrightarrow> Bytes (foldl (\<lambda>x c. x * 256 + unat c) x b) = Bytes x @ b"
proof (induction b arbitrary: x)
  case Nil
  then show ?case by simp
next
  case (Cons c b)
  then have pos: "0 < x * 256 + unat c" by simp
  from Cons.IH [OF pos] show ?case by (simp add: Bytes_shift [OF pos])
qed

lemma Bytes_SetBytes: "Bytes (SetBytes b) = dropWhile (\<lambda>x. x = 0) b"
proof (induction b)
  case Nil
  then show ?case by (simp add: SetBytes_def Bytes_zero)
next
  case (Cons c b)
  show ?case
  proof (cases "c = 0")
    case True
    with Cons.IH show ?thesis by (simp add: SetBytes_Cons_zero)
  next
    case False
    then have pos: "0 < unat c" by (simp add: unat_gt_0)
    have "Bytes (unat c) = [c]"
      using Bytes_shift [of 0 c] pos by (simp add: Bytes_zero)
    then show ?thesis
      using False Bytes_foldl_pos [OF pos, of b] by (simp add: SetBytes_def)
  qed
qed

subsection \<open>The leading symbol of the digits\<close>

lemma last_digitsLSB: "digitsLSB x \<noteq> [] \<Longrightarrow> last (digitsLSB x) \<noteq> 0"
proof (induction x rule: digitsLSB.induct)
  case (1 n)
  from "1.prems" have pos: "0 < n" by (auto simp: digitsLSB_zero intro: ccontr)
  show ?case
  proof (cases "n div 62 = 0")
    case True
    then have "n mod 62 = n" by simp
    with pos True show ?thesis by (simp add: digitsLSB_pos digitsLSB_zero)
  next
    case False
    then have ne: "digitsLSB (n div 62) \<noteq> []" by (simp add: digitsLSB_pos)
    with "1.IH" pos show ?thesis by (simp add: digitsLSB_pos)
  qed
qed

lemma no_leading_zero_symbol:
  assumes ok: "tableOK e"
  shows "takeWhile (\<lambda>c. c = alphabetIdx0 e) (symbols e (rev (digitsLSB x))) = []"
proof (cases "digitsLSB x = []")
  case True
  then show ?thesis by (simp add: symbols_def)
next
  case False
  let ?d = "last (digitsLSB x)"
  from False have d0: "?d \<noteq> 0" by (rule last_digitsLSB)
  from False have "?d \<in> set (digitsLSB x)" by simp
  then have d62: "?d < 62" by (rule digitsLSB_less)
  from ok have len: "length (alphabet e) = 62" and dist: "distinct (alphabet e)"
    and z: "alphabetIdx0 e = alphabet e ! 0"
    by (simp_all add: tableOK_def)
  have ne: "alphabet e ! ?d \<noteq> alphabet e ! 0"
    using d0 d62 len dist by (simp add: nth_eq_iff_index_eq)
  have rv: "rev (digitsLSB x) = ?d # rev (butlast (digitsLSB x))"
    using False
    by (metis append_butlast_last_id rev.simps(2) rev_rev_ident rev_singleton_conv rev_append
        append_Cons append_Nil)
  show ?thesis
    unfolding rv symbols_Cons z using ne by simp
qed

subsection \<open>Decoding what \<open>EncodeToString\<close> returns\<close>

lemma takeWhile_zero_replicate:
  "takeWhile (\<lambda>x. x = 0) b = replicate (length (takeWhile (\<lambda>x. x = 0) b)) (0 :: byte)"
  by (induction b) simp_all

lemma takeWhile_replicate_append:
  "takeWhile (\<lambda>c. c = z) (replicate k z @ ys) = replicate k z @ takeWhile (\<lambda>c. c = z) ys"
  by (induction k) simp_all

lemma roundtrip_bytes:
  assumes ok: "tableOK e" and ascii: "asciiTable e"
  shows "\<exists>s. EncodeToString e b = Inr s
    \<and> takeWhile (\<lambda>c. c = alphabetIdx0 e) s
        = replicate (length (takeWhile (\<lambda>x. x = 0) b)) (alphabetIdx0 e)
    \<and> DecodeString e s = Inr b"
proof -
  define k where "k = length (takeWhile (\<lambda>x. x = 0) b)"
  let ?z = "alphabetIdx0 e"
  let ?ds = "rev (digitsLSB (SetBytes b))"
  let ?s = "replicate k ?z @ symbols e ?ds"
  from ok have len: "length (alphabet e) = 62" and z: "?z = alphabet e ! 0"
    by (simp_all add: tableOK_def)
  have enc: "EncodeToString e b = Inr ?s"
    by (simp add: EncodeToString_digits [OF len] k_def)
  have lead: "takeWhile (\<lambda>c. c = ?z) ?s = replicate k ?z"
    by (simp add: takeWhile_replicate_append no_leading_zero_symbol [OF ok])
  have s_sym: "?s = symbols e (replicate k 0 @ ?ds)"
    by (simp add: symbols_def z)
  have digits: "\<forall>d\<in>set (replicate k 0 @ ?ds). d < 62"
    by (auto dest: digitsLSB_less)
  have val: "val62 (replicate k 0 @ ?ds) = SetBytes b"
    by (simp add: val62_append val62_replicate_zero val62_digitsLSB)
  have loop: "decodeLoop e 0 ?s = Inr (Some (SetBytes b))"
    unfolding s_sym using decodeLoop_digits [OF ok ascii digits, of 0] by (simp add: val)
  have b: "replicate k 0 @ dropWhile (\<lambda>x. x = 0) b = b"
    using takeWhile_zero_replicate [of b] takeWhile_dropWhile_id [of "\<lambda>x. x = 0" b]
    by (simp add: k_def)
  have "DecodeString e ?s = Inr (replicate k 0 @ Bytes (SetBytes b))"
    by (simp add: DecodeString_def loop Let_def countZeros_eq lead copy_full)
  then have "DecodeString e ?s = Inr b"
    by (simp add: Bytes_SetBytes b)
  with enc lead show ?thesis unfolding k_def by blast
qed

section \<open>The codec on tables of ASCII symbols\<close>

text \<open>
  When the zero symbol is below \<open>0x80\<close>, \<open>string(e.alphabetIdx0)\<close> is that one byte, and
  the fixed-width round trip holds for every table that \<open>New\<close> builds from 62 pairwise
  distinct bytes; the standard table is one.
\<close>

lemma roundtrip_uint64_New:
  assumes "New a = Inr e" and "length a = 62" and "distinct a" and "a ! 0 < 0x80"
  shows "\<exists>s. EncodeUint64 e n = Inr s \<and> DecodeToUint64 e s = Inr n"
proof -
  note ok = New_tableOK [OF assms(2,3,1)]
  have "alphabetIdx0 e < 0x80"
    using ok assms(4) by (simp add: tableOK_def)
  with ok(1) show ?thesis by (rule roundtrip_uint64)
qed

lemma roundtrip_uint64_StdEncoding:
  "New stdAlphabet = Inr StdEncoding \<and> length stdAlphabet = 62 \<and> distinct stdAlphabet
   \<and> stdAlphabet ! 0 < 0x80
   \<and> (\<forall>n. \<exists>s. EncodeUint64 StdEncoding n = Inr s \<and> DecodeToUint64 StdEncoding s = Inr n)"
proof -
  have z: "stdAlphabet ! 0 < 0x80" by (simp add: stdAlphabet_def)
  from roundtrip_uint64_New [OF New_stdAlphabet length_stdAlphabet distinct_stdAlphabet z]
    New_stdAlphabet length_stdAlphabet distinct_stdAlphabet z
  show ?thesis by blast
qed

text \<open>
  Under the same condition \<open>EncodeUint64 n\<close> is the string that \<open>EncodeToString\<close> returns
  on \<open>marshallUint64 n\<close>, the big-endian bytes of \<open>n\<close> without leading zero bytes, and the
  single byte \<open>0x00\<close> for \<open>n = 0\<close>.
\<close>

lemma EncodeUint64_marshall_ascii:
  assumes "length (alphabet e) = 62" and "alphabetIdx0 e < 0x80"
  shows "(\<exists>s. EncodeUint64 e n = Inr s \<and> EncodeToString e (marshallUint64 n) = Inr s)
    \<and> SetBytes (marshallUint64 n) = unat n
    \<and> takeWhile (\<lambda>x. x = 0) (marshallUint64 n) = (if n = 0 then [0] else [])"
proof -
  have "SetBytes (marshallUint64 n) = unat n"
  proof (cases "n = 0")
    case True
    then show ?thesis by (simp add: marshallUint64_zero SetBytes_def)
  next
    case False
    then show ?thesis by (rule marshallUint64_nonzero)
  qed
  moreover have "takeWhile (\<lambda>x. x = 0) (marshallUint64 n) = (if n = 0 then [0] else [])"
    by (simp add: marshallUint64_zero marshallUint64_nonzero)
  ultimately show ?thesis
    using EncodeUint64_refines [OF assms, of n] by auto
qed

lemma EncodeUint64_marshall_StdEncoding:
  "length (alphabet StdEncoding) = 62 \<and> alphabetIdx0 StdEncoding < 0x80
   \<and> (\<forall>n. (\<exists>s. EncodeUint64 StdEncoding n = Inr s
              \<and> EncodeToString StdEncoding (marshallUint64 n) = Inr s)
          \<and> SetBytes (marshallUint64 n) = unat n
          \<and> takeWhile (\<lambda>x. x = 0) (marshallUint64 n) = (if n = 0 then [0] else []))"
proof -
  have len: "length (alphabet StdEncoding) = 62"
    by (simp add: alphabet_StdEncoding length_stdAlphabet)
  have z: "alphabetIdx0 StdEncoding < 0x80"
    by (simp add: alphabetIdx0_StdEncoding)
  from EncodeUint64_marshall_ascii [OF len z] len z show ?thesis
    by blast
qed

text \<open>
  When every symbol is below \<open>0x80\<close>, ranging over the encoded string yields its bytes,
  and the leading zero bytes survive the round trip.
\<close>

lemma leading_zeros_ascii:
  assumes "New a = Inr e" and "length a = 62" and "distinct a"
    and "list_all (\<lambda>c. c < 0x80) a"
  shows "(\<exists>s d. EncodeToString e b = Inr s
      \<and> length (takeWhile (\<lambda>c. c = alphabetIdx0 e) s) = length (takeWhile (\<lambda>x. x = 0) b)
      \<and> DecodeString e s = Inr d
      \<and> length (takeWhile (\<lambda>x. x = 0) d) = length (takeWhile (\<lambda>x. x = 0) b))
    \<and> DecodeString e (replicate k (alphabetIdx0 e)) = Inr (replicate k 0)"
proof -
  note ok = New_tableOK [OF assms(2,3,1)]
  have ascii: "asciiTable e"
    using assms(4) by (simp add: asciiTable_def ok(2) list_all_iff)
  from roundtrip_bytes [OF ok(1) ascii, of b]
  obtain s where s: "EncodeToString e b = Inr s"
    "takeWhile (\<lambda>c. c = alphabetIdx0 e) s
       = replicate (length (takeWhile (\<lambda>x. x = 0) b)) (alphabetIdx0 e)"
    "DecodeString e s = Inr b"
    by blast
  from s(2) have "length (takeWhile (\<lambda>c. c = alphabetIdx0 e) s) = length (takeWhile (\<lambda>x. x = 0) b)"
    by simp
  with s(1,3) have first: "\<exists>s d. EncodeToString e b = Inr s
      \<and> length (takeWhile (\<lambda>c. c = alphabetIdx0 e) s) = length (takeWhile (\<lambda>x. x = 0) b)
      \<and> DecodeString e s = Inr d
      \<and> length (takeWhile (\<lambda>x. x = 0) d) = length (takeWhile (\<lambda>x. x = 0) b)"
    by blast
  from roundtrip_bytes [OF ok(1) ascii, of "replicate k 0"]
  have "DecodeString e (replicate k (alphabetIdx0 e)) = Inr (replicate k 0)"
    by (simp add: EncodeToString_replicate_zero)
  with first show ?thesis by blast
qed

lemma leading_zeros_StdEncoding:
  "New stdAlphabet = Inr StdEncoding \<and> length stdAlphabet = 62 \<and> distinct stdAlphabet
   \<and> list_all (\<lambda>c. c < 0x80) stdAlphabet
   \<and> (\<forall>b k. (\<exists>s d. EncodeToString StdEncoding b = Inr s
        \<and> length (takeWhile (\<lambda>c. c = alphabetIdx0 StdEncoding) s)
            = length (takeWhile (\<lambda>x. x = 0) b)
        \<and> DecodeString StdEncoding s = Inr d
        \<and> length (takeWhile (\<lambda>x. x = 0) d) = length (takeWhile (\<lambda>x. x = 0) b))
      \<and> DecodeString StdEncoding (replicate k (alphabetIdx0 StdEncoding)) = Inr (replicate k 0))"
proof -
  have ascii: "list_all (\<lambda>c. c < 0x80) stdAlphabet"
    using ascii_stdAlphabet by (simp add: list_all_iff)
  from leading_zeros_ascii
    [OF New_stdAlphabet length_stdAlphabet distinct_stdAlphabet ascii]
    New_stdAlphabet length_stdAlphabet distinct_stdAlphabet ascii
  show ?thesis by blast
qed

section \<open>Behaviour at concrete inputs\<close>

text \<open>
  C2, at the string \<open>"?"\<close>: the byte \<open>'?'\<close> is not in the standard alphabet, so the decode
  map holds 255 for it. The guard \<open>i < 0\<close> on a \<open>byte\<close> never holds, and
  \<open>DecodeToUint64\<close> returns the value 255 with no error instead of an
  \<open>InvalidCharacter\<close> failure.
\<close>

theorem DecodeToUint64_question_mark:
  "DecodeToUint64 StdEncoding (map of_char ''?'') = Inr 255"
  by (simp add: DecodeToUint64_def idx_def length_decodeMap_StdEncoding
      decodeMap_StdEncoding_question radix_def)

text \<open>
  C3, at the string of eleven \<open>'Z'\<close>: its base62 value is \<open>62^11 - 1\<close>, which is above
  \<open>2^64\<close>. The last multiply-add wraps around to a value that is not smaller than the
  accumulator before it, so the test \<open>m < n\<close> does not fire and \<open>DecodeToUint64\<close>
  returns \<open>(62^11 - 1) mod 2^64\<close> with no error instead of an \<open>Overflow\<close> failure.
\<close>

theorem DecodeToUint64_eleven_Z:
  "DecodeToUint64 StdEncoding (map of_char ''ZZZZZZZZZZZ'') = Inr 15143072536417990655"
  by (simp add: DecodeToUint64_def idx_def length_decodeMap_StdEncoding
      decodeMap_StdEncoding_Z radix_def Let_def)

text \<open>
  C4, at the three bytes \<open>E2 82 AC\<close> (the UTF-8 form of the euro sign): ranging over the
  string yields the single rune \<open>U+20AC\<close>, and indexing the 256-entry decode map with it
  panics; \<open>DecodeString\<close> does not return the empty byte sequence.
\<close>

theorem DecodeString_euro_sign:
  "DecodeString StdEncoding [0xE2, 0x82, 0xAC] = Inl IndexOutOfRange"
  by (simp add: DecodeString_def decodeLoop.simps decoderune_def contb_def idx_def
      length_decodeMap_StdEncoding)

text \<open>
  C7, as stated, fails: twenty zero bytes do not encode to ten zero symbols.
\<close>

theorem EncodeToString_twenty_zero_bytes_not_ten:
  "EncodeToString StdEncoding (replicate 20 0) \<noteq> Inr (map of_char ''0000000000'')"
proof
  assume "EncodeToString StdEncoding (replicate 20 0) = Inr (map of_char ''0000000000'')"
  then have "length (replicate 20 (alphabetIdx0 StdEncoding)) =
      length (map of_char ''0000000000'' :: byte list)"
    by (simp only: EncodeToString_replicate_zero sum.inject)
  then show False by simp
qed

text \<open>
  C7, amended: twenty zero bytes encode to twenty zero symbols, and it is the sequence of
  ten zero bytes that encodes to \<open>"0000000000"\<close>.
\<close>

theorem EncodeToString_zero_bytes:
  "EncodeToString StdEncoding (replicate 20 0) = Inr (replicate 20 (of_char CHR ''0''))
   \<and> EncodeToString StdEncoding (replicate 10 0) = Inr (map of_char ''0000000000'')"
proof -
  have "replicate 10 (of_char CHR ''0'' :: byte) = map of_char ''0000000000''"
    by code_simp
  then show ?thesis
    by (simp add: EncodeToString_replicate_zero alphabetIdx0_StdEncoding)
qed

section \<open>Behaviour on the tables with a symbol outside ASCII\<close>

lemma length_zeroE9Alphabet: "length zeroE9Alphabet = 62"
  by (simp add: zeroE9Alphabet_def length_stdAlphabet)

lemma distinct_zeroE9Alphabet: "distinct zeroE9Alphabet"
  by (simp add: zeroE9Alphabet_def stdAlphabet_def)

lemma New_zeroE9Alphabet: "New zeroE9Alphabet = Inr zeroE9Encoding"
proof -
  have "idx zeroE9Alphabet 0 = Inr (zeroE9Alphabet ! 0)"
    by (simp add: idx_def length_zeroE9Alphabet)
  then show ?thesis
    by (simp add: zeroE9Encoding_def New_def Let_def)
qed

lemmas zeroE9_table =
  New_tableOK [OF length_zeroE9Alphabet distinct_zeroE9Alphabet New_zeroE9Alphabet]

lemma alphabetIdx0_zeroE9Encoding: "alphabetIdx0 zeroE9Encoding = 0xE9"
  using zeroE9_table by (simp add: tableOK_def zeroE9Alphabet_def stdAlphabet_def)

lemma length_alphabet_zeroE9Encoding: "length (alphabet zeroE9Encoding) = 62"
  by (simp add: zeroE9_table(2) length_zeroE9Alphabet)

lemma decodeMap_zeroE9Encoding_C3: "decodeMap zeroE9Encoding ! 195 = 255"
proof -
  have "(0xC3 :: byte) \<notin> set (alphabet zeroE9Encoding)"
    by (simp add: zeroE9_table(2) zeroE9Alphabet_def stdAlphabet_def)
  from tableOK_invalid [OF zeroE9_table(1) this] show ?thesis by simp
qed

lemma decodeMap_zeroE9Encoding_A9: "decodeMap zeroE9Encoding ! 169 = 255"
proof -
  have "(0xA9 :: byte) \<notin> set (alphabet zeroE9Encoding)"
    by (simp add: zeroE9_table(2) zeroE9Alphabet_def stdAlphabet_def)
  from tableOK_invalid [OF zeroE9_table(1) this] show ?thesis by simp
qed

lemma EncodeUint64_zeroE9_zero: "EncodeUint64 zeroE9Encoding 0 = Inr [0xC3, 0xA9]"
  by (simp add: EncodeUint64_def stringOfByte_def alphabetIdx0_zeroE9Encoding)

lemma length_oneE9Alphabet: "length oneE9Alphabet = 62"
  by (simp add: oneE9Alphabet_def length_stdAlphabet)

lemma distinct_oneE9Alphabet: "distinct oneE9Alphabet"
  by (simp add: oneE9Alphabet_def stdAlphabet_def)

lemma New_oneE9Alphabet: "New oneE9Alphabet = Inr oneE9Encoding"
proof -
  have "idx oneE9Alphabet 0 = Inr (oneE9Alphabet ! 0)"
    by (simp add: idx_def length_oneE9Alphabet)
  then show ?thesis
    by (simp add: oneE9Encoding_def New_def Let_def)
qed

lemmas oneE9_table =
  New_tableOK [OF length_oneE9Alphabet distinct_oneE9Alphabet New_oneE9Alphabet]

lemma alphabetIdx0_oneE9Encoding: "alphabetIdx0 oneE9Encoding = 0x30"
  using oneE9_table by (simp add: tableOK_def oneE9Alphabet_def stdAlphabet_def)

lemma alphabet_oneE9Encoding_1: "alphabet oneE9Encoding ! 1 = 0xE9"
  by (simp add: oneE9_table(2) oneE9Alphabet_def stdAlphabet_def)

lemma decodeMap_oneE9Encoding_zero: "decodeMap oneE9Encoding ! 48 = 0"
proof -
  have "alphabet oneE9Encoding ! 0 = 0x30"
    by (simp add: oneE9_table(2) oneE9Alphabet_def stdAlphabet_def)
  with tableOK_digit [OF oneE9_table(1), of 0] show ?thesis by simp
qed

lemma EncodeToString_oneE9: "EncodeToString oneE9Encoding [0, 0, 1] = Inr [0x30, 0x30, 0xE9]"
proof -
  have len: "length (alphabet oneE9Encoding) = 62"
    by (simp add: oneE9_table(2) length_oneE9Alphabet)
  have sb: "SetBytes [0, 0, 1] = Suc 0" by (simp add: SetBytes_def)
  have dg: "digitsLSB (Suc 0) = [Suc 0]"
    by (simp add: digitsLSB_pos digitsLSB_zero)
  have a1: "alphabet oneE9Encoding ! Suc 0 = 0xE9"
    using alphabet_oneE9Encoding_1 by simp
  show ?thesis
    by (simp add: EncodeToString_digits [OF len] sb dg symbols_def alphabetIdx0_oneE9Encoding a1)
qed

text \<open>
  C5, on the table built from \<open>zeroE9Alphabet\<close> (62 pairwise distinct bytes) at \<open>n = 0\<close>:
  \<open>EncodeUint64\<close> returns \<open>string(e.alphabetIdx0)\<close>, which is the two bytes \<open>C3 A9\<close>, the
  UTF-8 form of the code point \<open>0xE9\<close>, and \<open>DecodeToUint64\<close> of these two bytes returns
  16065 with no error, not 0. The claim says that the round trip returns \<open>n\<close>.
\<close>

theorem DecodeToUint64_EncodeUint64_zeroE9:
  "New zeroE9Alphabet = Inr zeroE9Encoding \<and> length zeroE9Alphabet = 62
   \<and> distinct zeroE9Alphabet
   \<and> EncodeUint64 zeroE9Encoding 0 = Inr [0xC3, 0xA9]
   \<and> DecodeToUint64 zeroE9Encoding [0xC3, 0xA9] = Inr 16065"
proof -
  have "DecodeToUint64 zeroE9Encoding [0xC3, 0xA9] = Inr 16065"
    by (simp add: DecodeToUint64_def idx_def tableOK_length_decodeMap [OF zeroE9_table(1)]
        decodeMap_zeroE9Encoding_C3 decodeMap_zeroE9Encoding_A9 radix_def Let_def)
  then show ?thesis
    by (simp add: New_zeroE9Alphabet length_zeroE9Alphabet distinct_zeroE9Alphabet
        EncodeUint64_zeroE9_zero)
qed

text \<open>
  C10, on the same table at \<open>n = 0\<close>: \<open>EncodeUint64\<close> returns the two bytes \<open>C3 A9\<close>, while
  \<open>EncodeToString\<close> on \<open>marshallUint64 0\<close>, the single byte \<open>0x00\<close>, appends the zero
  symbol as a byte and returns the one byte \<open>E9\<close>. The claim says that the two strings are
  equal.
\<close>

theorem EncodeUint64_differs_from_EncodeToString_zeroE9:
  "New zeroE9Alphabet = Inr zeroE9Encoding \<and> length zeroE9Alphabet = 62
   \<and> distinct zeroE9Alphabet
   \<and> marshallUint64 0 = [0]
   \<and> EncodeUint64 zeroE9Encoding 0 = Inr [0xC3, 0xA9]
   \<and> EncodeToString zeroE9Encoding (marshallUint64 0) = Inr [0xE9]"
proof -
  have "EncodeToString zeroE9Encoding [0] = Inr [0xE9]"
    using EncodeToString_replicate_zero [of zeroE9Encoding 1]
    by (simp add: alphabetIdx0_zeroE9Encoding)
  then show ?thesis
    by (simp add: New_zeroE9Alphabet length_zeroE9Alphabet distinct_zeroE9Alphabet
        EncodeUint64_zeroE9_zero marshallUint64_zero)
qed

text \<open>
  C6, on the table built from \<open>oneE9Alphabet\<close> (62 pairwise distinct bytes) at the bytes
  \<open>00 00 01\<close>: \<open>EncodeToString\<close> returns \<open>"00"\<close> followed by the byte \<open>E9\<close>, with
  exactly two leading zero symbols, but \<open>DecodeString\<close> of that string panics: ranging over
  it yields the rune \<open>U+FFFD\<close> for the byte \<open>E9\<close>, which indexes the 256-entry decode map
  out of range. The claim says that decoding reproduces the two leading zero bytes.
\<close>

theorem DecodeString_panics_oneE9:
  "New oneE9Alphabet = Inr oneE9Encoding \<and> length oneE9Alphabet = 62
   \<and> distinct oneE9Alphabet
   \<and> EncodeToString oneE9Encoding [0, 0, 1] = Inr [0x30, 0x30, 0xE9]
   \<and> DecodeString oneE9Encoding [0x30, 0x30, 0xE9] = Inl IndexOutOfRange"
proof -
  have "DecodeString oneE9Encoding [0x30, 0x30, 0xE9] = Inl IndexOutOfRange"
    by (simp add: DecodeString_def decodeLoop.simps decoderune_def contb_def runeError_def idx_def
        tableOK_length_decodeMap [OF oneE9_table(1)] decodeMap_oneE9Encoding_zero)
  then show ?thesis
    by (simp add: New_oneE9Alphabet length_oneE9Alphabet distinct_oneE9Alphabet
        EncodeToString_oneE9)
qed

section \<open>Claims about the table and about totality\<close>



text \<open>
  C8: \<open>EncodeToString\<close> and \<open>EncodeUint64\<close> return a string for every byte sequence and
  every \<open>uint64\<close>: no read of the alphabet and no write to the 12-byte buffer is out of
  range, and the remainder of a division by \<open>62^10\<close> is the same number as an \<open>int64\<close>.
  The hypothesis is the type of the field, \<open>[62]byte\<close>.
\<close>

theorem encoders_total:
  assumes "length (alphabet e) = 62"
  shows "(\<exists>s. EncodeToString e b = Inr s) \<and> (\<exists>s. EncodeUint64 e n = Inr s)
    \<and> Int64 (x mod bigRadix10) = int (x mod bigRadix10)"
proof -
  have "\<exists>s. EncodeUint64 e n = Inr s"
  proof (cases "n = 0")
    case True
    then show ?thesis by (simp add: EncodeUint64_def)
  next
    case False
    then show ?thesis by (simp add: EncodeUint64_digits [OF assms])
  qed
  then show ?thesis
    by (simp add: EncodeToString_digits [OF assms] Int64_mod)
qed

theorem encoders_total_witness:
  "length (alphabet StdEncoding) = 62
   \<and> (\<exists>s. EncodeToString StdEncoding [0, 1, 255] = Inr s)
   \<and> (\<exists>s. EncodeUint64 StdEncoding 12345 = Inr s)
   \<and> Int64 (62 ^ 11 mod bigRadix10) = int (62 ^ 11 mod bigRadix10)"
proof -
  have len: "length (alphabet StdEncoding) = 62"
    by (simp add: alphabet_StdEncoding length_stdAlphabet)
  from encoders_total [OF len, of "[0, 1, 255]" 12345 "62 ^ 11"] len show ?thesis
    by blast
qed

section \<open>Claims about the arbitrary-precision codec\<close>

text \<open>
  C1: with the standard table, for every byte sequence \<open>b\<close>, the empty sequence and the
  sequences of zero bytes included, \<open>EncodeToString\<close> returns a string and
  \<open>DecodeString\<close> of that string returns exactly \<open>b\<close>.
\<close>

theorem DecodeString_EncodeToString:
  "\<exists>s. EncodeToString StdEncoding b = Inr s \<and> DecodeString StdEncoding s = Inr b"
  using roundtrip_bytes [OF tableOK_StdEncoding asciiTable_StdEncoding, of b] by blast

end
